theory Spec2Isabelle
  imports Complex_Main
begin

section \<open>Primitive arbitraries of jsverify (\<open>src/lib/primitive.js\<close>)\<close>

text \<open>
  An arbitrary is the object \<open>{generator, shrink, show}\<close>. JavaScript numbers that the
  code treats as integers are modelled as \<open>int\<close>, the numbers of the \<open>number\<close>
  arbitrary as \<open>real\<close> (so rounding of doubles, \<open>NaN\<close> and the infinities are outside the
  model, except where a \<open>NaN\<close> is written out below, and except in the loop of the
  integer and of the nat shrinker, whose additions round as those of doubles do). A parameter
  that may be \<open>undefined\<close> is an \<open>option\<close>, \<open>None\<close> being \<open>undefined\<close>.
\<close>

subsection \<open>Collaborators: random source, generator and shrink engines, utilities\<close>

text \<open>
  Modelled from the spec: \<open>random.js\<close> is not part of the source at hand. The spec (section 6)
  gives its contract: \<open>sample(min, max) -> integer\<close> with inclusive bounds and
  \<open>sampleFloat(min, max) -> real\<close>, which section 4.4 uses to sample a real value of
  \<open>[-size, size]\<close>. Every generator below draws exactly once per call, so the random source
  is the pair of functions that answer this one draw; \<open>rng_ok\<close> is the contract. Nothing is
  assumed about a draw whose bounds are reversed.
\<close>

record rng =
  random_int :: "int \<Rightarrow> int \<Rightarrow> int"
  random_number :: "real \<Rightarrow> real \<Rightarrow> real"

definition rng_ok :: "rng \<Rightarrow> bool" where
  "rng_ok r \<longleftrightarrow>
     (\<forall>lo hi. lo \<le> hi \<longrightarrow> lo \<le> random_int r lo hi \<and> random_int r lo hi \<le> hi) \<and>
     (\<forall>lo hi. lo \<le> hi \<longrightarrow> lo \<le> random_number r lo hi \<and> random_number r lo hi \<le> hi)"

text \<open>Three concrete random sources: always the lower bound, always the upper bound, and
  a chosen value whenever the bounds allow it.\<close>

definition rng_lo :: rng where
  "rng_lo = \<lparr>random_int = (\<lambda>lo hi. lo), random_number = (\<lambda>lo hi. lo)\<rparr>"

definition rng_hi :: rng where
  "rng_hi = \<lparr>random_int = (\<lambda>lo hi. hi), random_number = (\<lambda>lo hi. hi)\<rparr>"

definition rng_pick :: "int \<Rightarrow> rng" where
  "rng_pick v =
     \<lparr>random_int = (\<lambda>lo hi. if lo \<le> v \<and> v \<le> hi then v else lo),
      random_number = (\<lambda>lo hi. if lo \<le> of_int v \<and> of_int v \<le> hi then of_int v else lo)\<rparr>"

text \<open>A generator is a function of the size hint (non-negative, spec section 3) that may
  consult the random source; a shrinker maps a value to its list of candidates, and
  \<open>None\<close> stands for a call that does not return.\<close>

type_synonym 'a generator = "rng \<Rightarrow> nat \<Rightarrow> 'a"
type_synonym 'a shrinker = "'a \<Rightarrow> 'a list option"

text \<open>The renderers are referred to by name only: \<open>show.def\<close> and the function assigned
  to \<open>falsy.show\<close>.\<close>

datatype show_fn = Show_def | Show_falsy

record 'a arbitrary =
  generator :: "'a generator"
  shrink :: "'a shrinker"
  show_arb :: show_fn

text \<open>
  Modelled from the spec: \<open>generator.js\<close> and \<open>shrink.js\<close> are not part of the source at
  hand. \<open>bless\<close> wraps a function and is the identity here. \<open>Generator<T>.map(f)\<close> applies
  \<open>f\<close> to the generated value; \<open>Shrinker<T>.isomap(to, from)\<close> converts the counterexample
  back with \<open>from\<close>, reuses the shrinker, and converts each candidate with \<open>to\<close> (spec
  section 3); \<open>noop\<close> is the empty sequence.
\<close>

definition gen_map :: "('a \<Rightarrow> 'b) \<Rightarrow> 'a generator \<Rightarrow> 'b generator" where
  "gen_map f g = (\<lambda>r sz. f (g r sz))"

definition isomap :: "('a \<Rightarrow> 'b) \<Rightarrow> ('b \<Rightarrow> 'a) \<Rightarrow> 'a shrinker \<Rightarrow> 'b shrinker" where
  "isomap to from s = (\<lambda>u. map_option (map to) (s (from u)))"

definition shrink_noop :: "'a shrinker" where
  "shrink_noop = (\<lambda>x. Some [])"

text \<open>
  Modelled from the spec: \<open>utils.js\<close> is not part of the source at hand; the spec (section
  4.2) describes \<open>utils.div2\<close> as integer division by two. It is only applied to
  non-negative values.
\<close>

definition div2 :: "int \<Rightarrow> int" where
  "div2 x = x div 2"

text \<open>\<open>maxsize || size\<close>: the left operand unless it is falsy (\<open>undefined\<close> or \<open>0\<close>).\<close>

definition or_size :: "'a::zero option \<Rightarrow> 'a \<Rightarrow> 'a" where
  "or_size maxsize sz = (case maxsize of None \<Rightarrow> sz | Some m \<Rightarrow> if m = 0 then sz else m)"

subsection \<open>Sums of integers held in doubles\<close>

text \<open>
  A JavaScript number is a double: it holds every integer of magnitude up to \<open>2^53\<close>
  exactly, and above that only the multiples of the spacing \<open>ulp\<close>, which is 2 up to
  \<open>2^54\<close> and doubles with every further bit. A sum is rounded to the nearest double,
  ties to the even significand. (The overflow to \<open>Infinity\<close> near \<open>2^1024\<close> is not
  modelled.) The loop of the integer and that of the nat shrinker add with \<open>js_add\<close>; halving,
  negation, \<open>Math.abs\<close>, \<open>Math.max\<close> and the comparisons are exact on doubles.
\<close>

function ulp :: "int \<Rightarrow> int" where
  "ulp a = (if a < 9007199254740992 then 1 else 2 * ulp (a div 2))"
  by pat_completeness auto
termination
  by (relation "measure nat") auto

definition round_double :: "int \<Rightarrow> int" where
  "round_double x =
     (let a = \<bar>x\<bar>;
          u = ulp a;
          q = a div u;
          r = a mod u;
          m = (if 2 * r < u then q else if u < 2 * r then q + 1
               else if even q then q else q + 1)
      in sgn x * (m * u))"

definition js_add :: "int \<Rightarrow> int \<Rightarrow> int" where
  "js_add x y = round_double (x + y)"

subsection \<open>The rescaling combinator \<open>numeric\<close>\<close>

text \<open>The two closures \<open>to\<close> and \<open>from\<close> of \<open>numeric\<close>, over the captured \<open>minsize\<close>.\<close>

definition numeric_to :: "'a::linordered_idom \<Rightarrow> 'a \<Rightarrow> 'a" where
  "numeric_to minsize x = \<bar>x\<bar> + minsize"

definition numeric_from :: "'a::linordered_idom \<Rightarrow> 'a \<Rightarrow> 'a" where
  "numeric_from minsize x = x - minsize"

text \<open>The argument list is \<open>arguments\<close>: two arguments rescale, one is passed on, and any
  other count calls \<open>impl()\<close>.\<close>

fun numeric :: "('a::linordered_idom option \<Rightarrow> 'a arbitrary) \<Rightarrow> 'a list \<Rightarrow> 'a arbitrary" where
  "numeric impl [minsize, maxsize] =
     (let arb = impl (Some (maxsize - minsize));
          to = numeric_to minsize;
          from = numeric_from minsize
      in \<lparr>generator = gen_map to (generator arb),
          shrink = isomap to from (shrink arb),
          show_arb = Show_def\<rparr>)"
| "numeric impl [minsize] = impl (Some minsize)"
| "numeric impl _ = impl None"

subsection \<open>Integers\<close>

text \<open>The \<open>while (j < i)\<close> loop of the integer shrinker, with the array it pushes to.
  \<open>j += k\<close> is a sum of doubles; the loop need not end, and \<open>None\<close> is the run that does
  not.\<close>

partial_function (option) integer_loop :: "int \<Rightarrow> int \<Rightarrow> int \<Rightarrow> int list \<Rightarrow> int list option" where
  "integer_loop i j k arr =
     (if j < i
      then (let arr' = arr @ [j, - j];
                k' = max (div2 k) 1
            in integer_loop i (js_add j k') k' arr')
      else Some arr)"

declare integer_loop.simps [code]

definition integer_shrink :: "int shrinker" where
  "integer_shrink i0 =
     (let i = \<bar>i0\<bar>
      in if i = 0 then Some []
         else (let arr = [0];
                   j = div2 i;
                   k = max j 1
               in integer_loop i j k arr))"

definition integer_impl :: "int option \<Rightarrow> int arbitrary" where
  "integer_impl maxsize =
     \<lparr>generator = (\<lambda>r sz. let size' = or_size maxsize (int sz)
                              in random_int r (- size') size'),
      shrink = integer_shrink,
      show_arb = Show_def\<rparr>"

definition integer :: "int list \<Rightarrow> int arbitrary" where
  "integer = numeric integer_impl"

subsection \<open>Natural numbers\<close>

text \<open>The loop of the nat shrinker: the same loop, pushing \<open>j\<close> only.\<close>

partial_function (option) nat_loop :: "int \<Rightarrow> int \<Rightarrow> int \<Rightarrow> int list \<Rightarrow> int list option" where
  "nat_loop i j k arr =
     (if j < i
      then (let arr' = arr @ [j];
                k' = max (div2 k) 1
            in nat_loop i (js_add j k') k' arr')
      else Some arr)"

declare nat_loop.simps [code]

definition nat_shrink :: "int shrinker" where
  "nat_shrink i =
     (let arr = [];
          j = div2 i;
          k = max j 1
      in nat_loop i j k arr)"

definition nat_arb :: "int option \<Rightarrow> int arbitrary" where
  "nat_arb maxsize =
     \<lparr>generator = (\<lambda>r sz. let size' = or_size maxsize (int sz)
                              in random_int r 0 size'),
      shrink = nat_shrink,
      show_arb = Show_def\<rparr>"

subsection \<open>Numbers\<close>

definition number_shrink :: "real shrinker" where
  "number_shrink x = (if \<bar>x\<bar> > 1 / 1000000 then Some [0, x / 2, - x / 2] else Some [])"

definition number_impl :: "real option \<Rightarrow> real arbitrary" where
  "number_impl maxsize =
     \<lparr>generator = (\<lambda>r sz. let size' = or_size maxsize (real sz)
                              in random_number r (- size') size'),
      shrink = number_shrink,
      show_arb = Show_def\<rparr>"

definition number :: "real list \<Rightarrow> real arbitrary" where
  "number = numeric number_impl"

subsection \<open>Fixed-width aliases and booleans\<close>

definition uint8 :: "int arbitrary" where "uint8 = nat_arb (Some 255)"
definition uint16 :: "int arbitrary" where "uint16 = nat_arb (Some 65535)"
definition uint32 :: "int arbitrary" where "uint32 = nat_arb (Some 4294967295)"

definition int8 :: "int arbitrary" where "int8 = integer [128]"
definition int16 :: "int arbitrary" where "int16 = integer [32768]"
definition int32 :: "int arbitrary" where "int32 = integer [2147483648]"

definition bool_arb :: "bool arbitrary" where
  "bool_arb =
     \<lparr>generator = (\<lambda>r sz. let i = random_int r 0 1 in if i = 0 then False else True),
      shrink = (\<lambda>b. if b = True then Some [False] else Some []),
      show_arb = Show_def\<rparr>"

subsection \<open>Dates\<close>

text \<open>
  The built-in \<open>Date\<close>: a date value holds a time value, an integral number of
  milliseconds of magnitude at most \<open>8.64e15\<close>, or \<open>NaN\<close> (an invalid date). \<open>new Date(x)\<close>
  on a number clips it: \<open>NaN\<close> and magnitudes above \<open>8.64e15\<close> give the invalid date,
  anything else is truncated towards zero. \<open>getTime()\<close> returns the time value. A number
  that may be \<open>NaN\<close> is a \<open>real option\<close> here, \<open>None\<close> being \<open>NaN\<close>.
\<close>

datatype date = Date int | Invalid_Date

definition js_trunc :: "real \<Rightarrow> int" where
  "js_trunc x = (if 0 \<le> x then \<lfloor>x\<rfloor> else \<lceil>x\<rceil>)"

definition new_Date :: "real option \<Rightarrow> date" where
  "new_Date v =
     (case v of
        None \<Rightarrow> Invalid_Date
      | Some x \<Rightarrow> if \<bar>x\<bar> > 8640000000000000 then Invalid_Date else Date (js_trunc x))"

definition getTime :: "date \<Rightarrow> real option" where
  "getTime d = (case d of Invalid_Date \<Rightarrow> None | Date t \<Rightarrow> Some (of_int t))"

definition datetimeConst :: real where
  "datetimeConst = 1416499879495"

text \<open>
  \<open>datetime\<close> looks at \<open>arguments.length\<close>: exactly two arguments give the bounded form,
  anything else the default. In the bounded form the endpoints' time values may be \<open>NaN\<close>,
  and the source's arithmetic on \<open>NaN\<close> is written out:
  \<^item> a valid \<open>from\<close> and a \<open>NaN\<close> \<open>to\<close>: \<open>maxsize - minsize\<close> is \<open>NaN\<close>, which
    \<open>maxsize || size\<close> treats like \<open>undefined\<close>, and \<open>to(x) = |x| + from\<close> as usual;
  \<^item> a \<open>NaN\<close> \<open>from\<close>: \<open>to(x) = |x| + NaN\<close> is \<open>NaN\<close>, every generated date is invalid, and
    the shrinker gets \<open>x - NaN\<close>, for which \<open>Math.abs(x) > 1e-6\<close> is false: no candidates;
  \<^item> shrinking an invalid date: \<open>fromDate\<close> gives \<open>NaN\<close>, and again no candidates.
\<close>

definition datetime :: "date list \<Rightarrow> date arbitrary" where
  "datetime args =
     (case args of
        [from, to] \<Rightarrow>
          (let toDate = (\<lambda>x. new_Date (Some x));
               fromDate = getTime
           in case fromDate from of
                None \<Rightarrow>
                  \<lparr>generator = (\<lambda>r sz. new_Date None),
                   shrink = (\<lambda>u. Some []),
                   show_arb = Show_def\<rparr>
              | Some from' \<Rightarrow>
                  (let arb = (case fromDate to of
                                Some to' \<Rightarrow> number [from', to']
                              | None \<Rightarrow>
                                  (let arb0 = number_impl None;
                                       to0 = numeric_to from';
                                       from0 = numeric_from from'
                                   in \<lparr>generator = gen_map to0 (generator arb0),
                                       shrink = isomap to0 from0 (shrink arb0),
                                       show_arb = Show_def\<rparr>))
                   in \<lparr>generator = gen_map toDate (generator arb),
                       shrink = (\<lambda>u. case fromDate u of
                                        None \<Rightarrow> Some []
                                      | Some v \<Rightarrow> map_option (map toDate) (shrink arb v)),
                       show_arb = Show_def\<rparr>))
      | _ \<Rightarrow>
          (let toDate = (\<lambda>x. new_Date (Some (x * 768000000 + datetimeConst)));
               arb = number []
           in \<lparr>generator = gen_map toDate (generator arb),
               shrink = shrink_noop,
               show_arb = Show_def\<rparr>))"

subsection \<open>Enumerated choices and constants\<close>

text \<open>
  The candidates of \<open>elements\<close> are arbitrary JavaScript values, and the shrinker compares
  them with \<open>===\<close>. \<open>jsval\<close> holds the values as far as \<open>===\<close> tells them apart: the
  primitives, with \<open>NaN\<close> apart from the other numbers (and one zero, since \<open>0 === -0\<close>),
  and objects (arrays and functions among them) by their reference. \<open>strict_eq\<close> is
  \<open>===\<close>: \<open>NaN\<close> equals nothing, itself included; any other value equals itself only.
\<close>

datatype jsval =
    JUndefined
  | JNull
  | JBoolean bool
  | JNumber real
  | JNaN
  | JString string
  | JObject nat

definition strict_eq :: "jsval \<Rightarrow> jsval \<Rightarrow> bool" where
  "strict_eq x y \<longleftrightarrow> x \<noteq> JNaN \<and> y \<noteq> JNaN \<and> x = y"

text \<open>\<open>assert(cond, message)\<close> throws an \<open>AssertionError\<close> carrying the message.\<close>

datatype error = AssertionError string

text \<open>\<open>Array.prototype.indexOf\<close>: the first index, scanning from the front, whose element
  is \<open>===\<close> to the value, or \<open>-1\<close>.\<close>

fun indexOf_from :: "jsval list \<Rightarrow> jsval \<Rightarrow> int \<Rightarrow> int" where
  "indexOf_from [] x k = - 1"
| "indexOf_from (y # ys) x k = (if strict_eq y x then k else indexOf_from ys x (k + 1))"

definition indexOf :: "jsval list \<Rightarrow> jsval \<Rightarrow> int" where
  "indexOf xs x = indexOf_from xs x 0"

text \<open>\<open>Array.prototype.slice(0, end)\<close>: a negative \<open>end\<close> counts from the back, and the
  end is clamped to the length.\<close>

definition slice0 :: "'a list \<Rightarrow> int \<Rightarrow> 'a list" where
  "slice0 xs e =
     (let len = int (length xs);
          final = (if e < 0 then max (len + e) 0 else min e len)
      in take (nat final) xs)"

text \<open>\<open>args[i]\<close>: \<open>undefined\<close> out of range.\<close>

definition js_nth :: "jsval list \<Rightarrow> int \<Rightarrow> jsval" where
  "js_nth xs i = (if 0 \<le> i \<and> i < int (length xs) then xs ! nat i else JUndefined)"

definition elements_shrink :: "jsval list \<Rightarrow> jsval shrinker" where
  "elements_shrink args x =
     (let idx = indexOf args x
      in if idx \<le> 0 then Some [] else Some (slice0 args idx))"

definition elements :: "jsval list \<Rightarrow> error + jsval arbitrary" where
  "elements args =
     (if \<not> (int (length args) \<noteq> 0)
      then Inl (AssertionError ''elements: at least one parameter expected'')
      else Inr \<lparr>generator = (\<lambda>r sz. let i = random_int r 0 (int (length args) - 1)
                                     in js_nth args i),
                shrink = elements_shrink args,
                show_arb = Show_def\<rparr>)"

text \<open>\<open>falsy\<close>: \<open>elements\<close> on the six falsy values, then its \<open>show\<close> replaced.\<close>

definition falsy_list :: "jsval list" where
  "falsy_list = [JBoolean False, JNull, JUndefined, JString '''', JNumber 0, JNaN]"



subsection \<open>Characters and strings\<close>






subsection \<open>The exported constructors\<close>




subsection \<open>The magnitudes of the shrink loop in exact arithmetic\<close>

text \<open>The magnitudes \<open>j\<close> that the \<open>while (j < i)\<close> loop of both shrinkers visits when no
  sum rounds: the loop without its array, on unbounded integers, where it always ends.\<close>

function loop_mags :: "int \<Rightarrow> int \<Rightarrow> int \<Rightarrow> int list" where
  "loop_mags i j k =
     (if j < i then j # (let k' = max (div2 k) 1 in loop_mags i (j + k') k') else [])"
  by pat_completeness auto
termination
  by (relation "measure (\<lambda>(i, j, k). nat (i - j))") auto

text \<open>Two sets of loop states \<open>(j, k)\<close>, used to follow the loop: the states reached for
  a bound \<open>i\<close> when no sum rounds, and the states that the loop for the bound
  \<open>2^53 + 2\<close> never leaves.\<close>

definition loop_inv :: "int \<Rightarrow> int \<Rightarrow> int \<Rightarrow> bool" where
  "loop_inv i j k \<longleftrightarrow> 0 \<le> j \<and> j \<le> i \<and> 1 \<le> k \<and> (2 \<le> k \<longrightarrow> j + k \<le> i)"

definition stuck :: "int \<Rightarrow> int \<Rightarrow> bool" where
  "stuck j k \<longleftrightarrow>
     0 \<le> j \<and> j \<le> 9007199254740992 \<and> 1 \<le> k \<and> (2 \<le> k \<longrightarrow> j + k \<le> 9007199254740994)"

subsection \<open>The shrink sequence in the words of the spec\<close>

text \<open>
  Spec section 4.2: magnitudes \<open>j\<close> starting at \<open>a/2\<close> (integer division) and stepping by
  a step \<open>k\<close>, itself halved each iteration and floored at 1. \<open>spec_step k n\<close> is the step
  after \<open>n\<close> halvings of an initial step \<open>k\<close>, \<open>spec_mag j k n\<close> the magnitude after \<open>n\<close>
  steps from \<open>j\<close>. The spec leaves the initial step open; the source starts it at
  \<open>max(a/2, 1)\<close> and halves it before it is first added.
\<close>

fun spec_step :: "int \<Rightarrow> nat \<Rightarrow> int" where
  "spec_step k 0 = k"
| "spec_step k (Suc n) = max (spec_step k n div 2) 1"

fun spec_mag :: "int \<Rightarrow> int \<Rightarrow> nat \<Rightarrow> int" where
  "spec_mag j k 0 = j"
| "spec_mag j k (Suc n) = spec_mag j k n + spec_step k (Suc n)"

definition shrink_mag :: "int \<Rightarrow> nat \<Rightarrow> int" where
  "shrink_mag a n = spec_mag (a div 2) (max (a div 2) 1) n"

section \<open>Properties\<close>

subsection \<open>Sums of doubles\<close>

declare loop_mags.simps [simp del] ulp.simps [simp del]

lemma ulp_small: "a < 9007199254740992 \<Longrightarrow> ulp a = 1"
  by (subst ulp.simps) simp

lemma ulp_2_53: "ulp 9007199254740992 = 2"
  by (subst ulp.simps) (simp add: ulp_small)

lemma ulp_2_53_1: "ulp 9007199254740993 = 2"
  by (subst ulp.simps) (simp add: ulp_small)

lemma ulp_2_53_2: "ulp 9007199254740994 = 2"
  by (subst ulp.simps) (simp add: ulp_small)

lemma round_double_exact:
  assumes "\<bar>x\<bar> \<le> 9007199254740992"
  shows "round_double x = x"
proof (cases "\<bar>x\<bar> < 9007199254740992")
  case True
  then have "ulp \<bar>x\<bar> = 1" by (rule ulp_small)
  then have "round_double x = sgn x * \<bar>x\<bar>"
    by (simp add: round_double_def Let_def)
  then show ?thesis by (simp add: sgn_mult_abs)
next
  case False
  with assms have a: "\<bar>x\<bar> = 9007199254740992" by simp
  then have "round_double x = sgn x * \<bar>x\<bar>"
    by (simp add: round_double_def Let_def ulp_2_53)
  then show ?thesis by (simp add: sgn_mult_abs)
qed

lemma round_double_2_53_1: "round_double 9007199254740993 = 9007199254740992"
  by (simp add: round_double_def Let_def ulp_2_53_1)

lemma round_double_2_53_2: "round_double 9007199254740994 = 9007199254740994"
  by (simp add: round_double_def Let_def ulp_2_53_2)

lemma round_double_le_2_53:
  assumes "0 \<le> x" and "x \<le> 9007199254740993"
  shows "0 \<le> round_double x \<and> round_double x \<le> x \<and> round_double x \<le> 9007199254740992"
proof (cases "x = 9007199254740993")
  case True
  then show ?thesis by (simp add: round_double_2_53_1)
next
  case False
  with assms have "\<bar>x\<bar> \<le> 9007199254740992" by simp
  then have "round_double x = x" by (rule round_double_exact)
  with assms False show ?thesis by simp
qed

subsection \<open>The shrink loop up to \<open>2^53\<close>\<close>

text \<open>From the initial state on, \<open>j\<close> never passes \<open>i\<close>; so for \<open>i\<close> up to \<open>2^53\<close> no sum
  rounds, and the loop visits the magnitudes of exact arithmetic.\<close>

lemma loop_inv_step:
  assumes "loop_inv i j k" and "j < i"
  shows "loop_inv i (j + max (div2 k) 1) (max (div2 k) 1)"
    and "0 \<le> j + max (div2 k) 1" and "j + max (div2 k) 1 \<le> i"
proof -
  define k' where "k' = max (div2 k) 1"
  from assms have j: "0 \<le> j" "1 \<le> k" and big: "2 \<le> k \<Longrightarrow> j + k \<le> i"
    by (simp_all add: loop_inv_def)
  have k': "1 \<le> k'" by (simp add: k'_def)
  have le: "j + k' \<le> i"
  proof (cases "2 \<le> k")
    case True
    then have "k' \<le> k" by (simp add: k'_def div2_def)
    with big [OF True] show ?thesis by simp
  next
    case False
    with j have "k = 1" by simp
    then have "k' = 1" by (simp add: k'_def div2_def)
    with assms(2) show ?thesis by simp
  qed
  have big': "j + k' + k' \<le> i" if "2 \<le> k'"
  proof -
    from that have "k' = k div 2" by (simp add: k'_def div2_def max_def split: if_splits)
    then have "k' + k' \<le> k" by simp
    moreover from that \<open>k' = k div 2\<close> have "2 \<le> k" by simp
    ultimately show ?thesis using big by simp
  qed
  from j k' le big' show "loop_inv i (j + max (div2 k) 1) (max (div2 k) 1)"
    unfolding k'_def [symmetric] by (simp add: loop_inv_def)
  from j k' show "0 \<le> j + max (div2 k) 1"
    unfolding k'_def [symmetric] by simp
  from le show "j + max (div2 k) 1 \<le> i"
    unfolding k'_def [symmetric] .
qed

lemma js_add_step:
  assumes "loop_inv i j k" and "j < i" and "i \<le> 9007199254740992"
  shows "js_add j (max (div2 k) 1) = j + max (div2 k) 1"
proof -
  from loop_inv_step(2,3) [OF assms(1,2)] assms(3)
  have "\<bar>j + max (div2 k) 1\<bar> \<le> 9007199254740992" by simp
  then show ?thesis
    unfolding js_add_def by (rule round_double_exact)
qed

lemma integer_loop_mags:
  "loop_inv i j k \<Longrightarrow> i \<le> 9007199254740992 \<Longrightarrow>
   integer_loop i j k arr = Some (arr @ concat (map (\<lambda>j. [j, - j]) (loop_mags i j k)))"
proof (induction i j k arbitrary: arr rule: loop_mags.induct)
  case (1 i j k)
  show ?case
  proof (cases "j < i")
    case True
    define k' where "k' = max (div2 k) 1"
    have inv: "loop_inv i (j + k') k'"
      unfolding k'_def by (rule loop_inv_step(1) [OF "1.prems"(1) True])
    have add: "js_add j k' = j + k'"
      unfolding k'_def by (rule js_add_step [OF "1.prems"(1) True "1.prems"(2)])
    have "integer_loop i j k arr = integer_loop i (j + k') k' (arr @ [j, - j])"
      using True add by (subst integer_loop.simps) (simp add: Let_def k'_def)
    also have "\<dots> = Some ((arr @ [j, - j]) @ concat (map (\<lambda>j. [j, - j]) (loop_mags i (j + k') k')))"
      using "1.IH" [OF True k'_def inv "1.prems"(2)] .
    also have "loop_mags i j k = j # loop_mags i (j + k') k'"
      using True by (subst loop_mags.simps) (simp add: Let_def k'_def)
    then have "(arr @ [j, - j]) @ concat (map (\<lambda>j. [j, - j]) (loop_mags i (j + k') k'))
          = arr @ concat (map (\<lambda>j. [j, - j]) (loop_mags i j k))"
      by simp
    finally show ?thesis .
  next
    case False
    then show ?thesis
      by (subst integer_loop.simps, subst loop_mags.simps) simp
  qed
qed

lemma nat_loop_mags:
  "loop_inv i j k \<Longrightarrow> i \<le> 9007199254740992 \<Longrightarrow>
   nat_loop i j k arr = Some (arr @ loop_mags i j k)"
proof (induction i j k arbitrary: arr rule: loop_mags.induct)
  case (1 i j k)
  show ?case
  proof (cases "j < i")
    case True
    define k' where "k' = max (div2 k) 1"
    have inv: "loop_inv i (j + k') k'"
      unfolding k'_def by (rule loop_inv_step(1) [OF "1.prems"(1) True])
    have add: "js_add j k' = j + k'"
      unfolding k'_def by (rule js_add_step [OF "1.prems"(1) True "1.prems"(2)])
    have "nat_loop i j k arr = nat_loop i (j + k') k' (arr @ [j])"
      using True add by (subst nat_loop.simps) (simp add: Let_def k'_def)
    also have "\<dots> = Some ((arr @ [j]) @ loop_mags i (j + k') k')"
      using "1.IH" [OF True k'_def inv "1.prems"(2)] .
    also have "loop_mags i j k = j # loop_mags i (j + k') k'"
      using True by (subst loop_mags.simps) (simp add: Let_def k'_def)
    then have "(arr @ [j]) @ loop_mags i (j + k') k' = arr @ loop_mags i j k"
      by simp
    finally show ?thesis .
  next
    case False
    then show ?thesis
      by (subst nat_loop.simps, subst loop_mags.simps) simp
  qed
qed

lemma loop_mags_bounds: "c \<in> set (loop_mags i j k) \<Longrightarrow> j \<le> c \<and> c < i"
proof (induction i j k rule: loop_mags.induct)
  case (1 i j k)
  show ?case
  proof (cases "j < i")
    case True
    define k' where "k' = max (div2 k) 1"
    have "loop_mags i j k = j # loop_mags i (j + k') k'"
      using True by (subst loop_mags.simps) (simp add: k'_def Let_def)
    with "1.prems" have "c = j \<or> c \<in> set (loop_mags i (j + k') k')"
      by simp
    then show ?thesis
    proof
      assume "c = j"
      with True show ?thesis by simp
    next
      assume "c \<in> set (loop_mags i (j + k') k')"
      from "1.IH" [OF True k'_def this] have "j + k' \<le> c" "c < i"
        by simp_all
      moreover have "1 \<le> k'"
        by (simp add: k'_def)
      ultimately show ?thesis by simp
    qed
  next
    case False
    then have "loop_mags i j k = []"
      by (subst loop_mags.simps) simp
    with "1.prems" show ?thesis by simp
  qed
qed

lemma loop_mags_first: "j < i \<Longrightarrow> j \<in> set (loop_mags i j k)"
  by (subst loop_mags.simps) simp

lemma loop_mags_none: "\<not> j < i \<Longrightarrow> loop_mags i j k = []"
  by (subst loop_mags.simps) simp

lemma spec_step_shift: "spec_step k (Suc n) = spec_step (max (k div 2) 1) n"
proof (induction n)
  case 0
  show ?case by (simp only: spec_step.simps)
next
  case (Suc n)
  show ?case
    by (subst spec_step.simps(2), subst Suc.IH) (simp only: spec_step.simps(2))
qed

lemma spec_mag_shift:
  "spec_mag j k (Suc n) = spec_mag (j + max (k div 2) 1) (max (k div 2) 1) n"
proof -
  define k' where "k' = max (k div 2) 1"
  have step: "spec_step k (Suc m) = spec_step k' m" for m
    unfolding k'_def by (rule spec_step_shift)
  have "spec_mag j k (Suc n) = spec_mag (j + k') k' n"
  proof (induction n)
    case 0
    have "spec_mag j k (Suc 0) = j + spec_step k (Suc 0)"
      by (simp only: spec_mag.simps)
    also have "\<dots> = j + k'"
      by (simp only: step spec_step.simps(1))
    finally show ?case
      by (simp only: spec_mag.simps(1))
  next
    case (Suc n)
    have "spec_mag j k (Suc (Suc n)) = spec_mag j k (Suc n) + spec_step k (Suc (Suc n))"
      by (rule spec_mag.simps(2))
    also have "\<dots> = spec_mag (j + k') k' n + spec_step k' (Suc n)"
      by (simp only: Suc.IH step)
    also have "\<dots> = spec_mag (j + k') k' (Suc n)"
      by (simp only: spec_mag.simps(2))
    finally show ?case .
  qed
  then show ?thesis
    by (simp only: k'_def)
qed

lemma loop_mags_spec:
  "\<exists>N. loop_mags i j k = map (spec_mag j k) [0..<N]
       \<and> (\<forall>n<N. spec_mag j k n < i) \<and> i \<le> spec_mag j k N"
proof (induction i j k rule: loop_mags.induct)
  case (1 i j k)
  show ?case
  proof (cases "j < i")
    case False
    then have "loop_mags i j k = []"
      by (subst loop_mags.simps) simp
    with False show ?thesis
      by (intro exI [of _ 0]) simp
  next
    case True
    define k' where "k' = max (div2 k) 1"
    from "1.IH" [OF True k'_def]
    obtain N where N: "loop_mags i (j + k') k' = map (spec_mag (j + k') k') [0..<N]"
      "\<forall>n<N. spec_mag (j + k') k' n < i" "i \<le> spec_mag (j + k') k' N"
      by blast
    have shift: "spec_mag (j + k') k' n = spec_mag j k (Suc n)" for n
      unfolding k'_def div2_def by (rule spec_mag_shift [symmetric])
    have "loop_mags i j k = j # loop_mags i (j + k') k'"
      using True by (subst loop_mags.simps) (simp add: k'_def Let_def)
    also have "\<dots> = spec_mag j k 0 # map (\<lambda>n. spec_mag j k (Suc n)) [0..<N]"
      using N(1) shift by simp
    also have "\<dots> = map (spec_mag j k) [0..<Suc N]"
      by (simp add: map_upt_Suc del: upt_Suc)
    finally have a: "loop_mags i j k = map (spec_mag j k) [0..<Suc N]" .
    have b: "\<forall>n<Suc N. spec_mag j k n < i"
    proof (intro allI impI)
      fix n assume "n < Suc N"
      then show "spec_mag j k n < i"
        using True N(2) shift by (cases n) auto
    qed
    have c: "i \<le> spec_mag j k (Suc N)"
      using N(3) shift by simp
    from a b c show ?thesis by blast
  qed
qed

lemma integer_shrink_mags:
  assumes "\<bar>i\<bar> \<le> 9007199254740992"
  shows "integer_shrink i =
     Some (if \<bar>i\<bar> = 0 then []
           else 0 # concat (map (\<lambda>j. [j, - j])
                              (loop_mags \<bar>i\<bar> (\<bar>i\<bar> div 2) (max (\<bar>i\<bar> div 2) 1))))"
proof (cases "\<bar>i\<bar> = 0")
  case True
  then show ?thesis
    by (simp add: integer_shrink_def)
next
  case False
  have "loop_inv \<bar>i\<bar> (\<bar>i\<bar> div 2) (max (\<bar>i\<bar> div 2) 1)"
    by (auto simp: loop_inv_def)
  from integer_loop_mags [OF this assms, of "[0]"] False show ?thesis
    by (simp add: integer_shrink_def Let_def div2_def)
qed

lemma nat_shrink_mags:
  assumes "0 \<le> i" and "i \<le> 9007199254740992"
  shows "nat_shrink i = Some (loop_mags i (i div 2) (max (i div 2) 1))"
proof -
  from assms(1) have "loop_inv i (i div 2) (max (i div 2) 1)"
    by (auto simp: loop_inv_def)
  from nat_loop_mags [OF this assms(2), of "[]"] show ?thesis
    by (simp add: nat_shrink_def Let_def div2_def)
qed

subsection \<open>The shrink loop at \<open>2^53 + 2\<close>\<close>

text \<open>For \<open>i = 2^53 + 2\<close> the loop reaches \<open>j = 2^53\<close> with the step 1, and \<open>2^53 + 1\<close>
  rounds back to \<open>2^53\<close>: the states \<open>stuck\<close> are never left, and \<open>j < i\<close> in all of them.\<close>

lemma stuck_step:
  assumes "stuck j k"
  shows "stuck (js_add j (max (div2 k) 1)) (max (div2 k) 1)"
proof -
  define k' where "k' = max (div2 k) 1"
  from assms have j: "0 \<le> j" "j \<le> 9007199254740992" "1 \<le> k"
    and big: "2 \<le> k \<Longrightarrow> j + k \<le> 9007199254740994"
    by (simp_all add: stuck_def)
  have k': "1 \<le> k'" by (simp add: k'_def)
  have le: "j + k' \<le> 9007199254740993"
  proof (cases "2 \<le> k")
    case True
    then have "k' < k" by (simp add: k'_def div2_def)
    with big [OF True] show ?thesis by simp
  next
    case False
    with j have "k = 1" by simp
    then have "k' = 1" by (simp add: k'_def div2_def)
    with j show ?thesis by simp
  qed
  from j k' have "0 \<le> j + k'" by simp
  from round_double_le_2_53 [OF this le]
  have r: "0 \<le> js_add j k'" "js_add j k' \<le> j + k'" "js_add j k' \<le> 9007199254740992"
    by (simp_all add: js_add_def)
  have big': "js_add j k' + k' \<le> 9007199254740994" if "2 \<le> k'"
  proof -
    from that have "k' = k div 2" by (simp add: k'_def div2_def max_def split: if_splits)
    then have "k' + k' \<le> k" by simp
    moreover from that \<open>k' = k div 2\<close> have "2 \<le> k" by simp
    ultimately show ?thesis using big r(2) by simp
  qed
  from r k' big' show ?thesis
    unfolding k'_def [symmetric] by (simp add: stuck_def)
qed

lemma stuck_initial: "stuck 4503599627370497 4503599627370497"
  by (simp add: stuck_def)

lemma integer_loop_stuck:
  assumes "integer_loop i j k arr = Some y"
  shows "\<not> (i = 9007199254740994 \<and> stuck j k)"
proof (rule integer_loop.raw_induct
    [where P = "\<lambda>i j k arr y. \<not> (i = 9007199254740994 \<and> stuck j k)", OF _ assms])
  fix f :: "int \<Rightarrow> int \<Rightarrow> int \<Rightarrow> int list \<Rightarrow> int list option"
    and i j k :: int and arr y :: "int list"
  assume IH: "\<And>i j k arr y. f i j k arr = Some y \<Longrightarrow> \<not> (i = 9007199254740994 \<and> stuck j k)"
    and eq: "(if j < i
              then let arr' = arr @ [j, - j]; k' = max (div2 k) 1
                   in f i (js_add j k') k' arr'
              else Some arr) = Some y"
  show "\<not> (i = 9007199254740994 \<and> stuck j k)"
  proof
    assume a: "i = 9007199254740994 \<and> stuck j k"
    then have lt: "j < i" by (simp add: stuck_def)
    from a have st: "stuck (js_add j (max (div2 k) 1)) (max (div2 k) 1)"
      by (simp add: stuck_step)
    from eq lt
    have "f i (js_add j (max (div2 k) 1)) (max (div2 k) 1) (arr @ [j, - j]) = Some y"
      by (simp add: Let_def)
    from IH [OF this] a st show False by simp
  qed
qed

lemma nat_loop_stuck:
  assumes "nat_loop i j k arr = Some y"
  shows "\<not> (i = 9007199254740994 \<and> stuck j k)"
proof (rule nat_loop.raw_induct
    [where P = "\<lambda>i j k arr y. \<not> (i = 9007199254740994 \<and> stuck j k)", OF _ assms])
  fix f :: "int \<Rightarrow> int \<Rightarrow> int \<Rightarrow> int list \<Rightarrow> int list option"
    and i j k :: int and arr y :: "int list"
  assume IH: "\<And>i j k arr y. f i j k arr = Some y \<Longrightarrow> \<not> (i = 9007199254740994 \<and> stuck j k)"
    and eq: "(if j < i
              then let arr' = arr @ [j]; k' = max (div2 k) 1
                   in f i (js_add j k') k' arr'
              else Some arr) = Some y"
  show "\<not> (i = 9007199254740994 \<and> stuck j k)"
  proof
    assume a: "i = 9007199254740994 \<and> stuck j k"
    then have lt: "j < i" by (simp add: stuck_def)
    from a have st: "stuck (js_add j (max (div2 k) 1)) (max (div2 k) 1)"
      by (simp add: stuck_step)
    from eq lt
    have "f i (js_add j (max (div2 k) 1)) (max (div2 k) 1) (arr @ [j]) = Some y"
      by (simp add: Let_def)
    from IH [OF this] a st show False by simp
  qed
qed

subsection \<open>C2: the integer shrinker\<close>

text \<open>
  Claim C2 as stated speaks of every integer. It fails above \<open>2^53\<close>: for
  \<open>i = 2^53 + 2 = 9007199254740994\<close>, which is a double, the loop starts at
  \<open>j = k = 2^52 + 1\<close>, reaches \<open>j = 2^53\<close> with \<open>k = 1\<close>, and from there \<open>j += k\<close> leaves \<open>j\<close>
  unchanged, since \<open>2^53 + 1\<close> rounds to \<open>2^53\<close>: the shrinker returns no sequence at all.
\<close>

theorem integer_shrink_candidates_counterexample:
  "round_double 9007199254740994 = 9007199254740994
   \<and> integer_shrink 9007199254740994 = None"
proof -
  have "integer_shrink 9007199254740994 = None"
  proof (cases "integer_shrink 9007199254740994")
    case None
    then show ?thesis .
  next
    case (Some y)
    then have "integer_loop 9007199254740994 4503599627370497 4503599627370497 [0] = Some y"
      by (simp add: integer_shrink_def Let_def div2_def)
    from integer_loop_stuck [OF this] stuck_initial show ?thesis
      by simp
  qed
  with round_double_2_53_2 show ?thesis by simp
qed

text \<open>
  Claim C2, amended. For every integer \<open>i\<close> with \<open>|i| \<le> 2^53\<close> the integer shrinker
  returns a list in which every candidate \<open>c\<close> has \<open>|c| \<le> |i|\<close> and in which \<open>i\<close> does not
  occur. When \<open>|i| = 0\<close> the list is empty; otherwise it is \<open>0\<close> followed by the pairs
  \<open>+j, -j\<close> for the magnitudes \<open>j\<close> of the spec's description: they start at \<open>|i| div 2\<close>,
  grow by the step that is halved in each iteration and floored at 1, and stop with the
  first magnitude that reaches \<open>|i|\<close>.
\<close>

theorem integer_shrink_candidates:
  assumes "\<bar>i\<bar> \<le> 9007199254740992"
  shows "\<exists>xs. integer_shrink i = Some xs
   \<and> (\<forall>c \<in> set xs. \<bar>c\<bar> \<le> \<bar>i\<bar>)
   \<and> i \<notin> set xs
   \<and> (\<bar>i\<bar> = 0 \<longrightarrow> xs = [])
   \<and> (\<bar>i\<bar> \<noteq> 0 \<longrightarrow>
        (\<exists>N. xs = 0 # concat (map (\<lambda>n. [shrink_mag \<bar>i\<bar> n, - shrink_mag \<bar>i\<bar> n]) [0..<N])
             \<and> shrink_mag \<bar>i\<bar> 0 = \<bar>i\<bar> div 2
             \<and> (\<forall>n<N. shrink_mag \<bar>i\<bar> n < \<bar>i\<bar>)
             \<and> \<bar>i\<bar> \<le> shrink_mag \<bar>i\<bar> N))"
proof -
  define a where "a = \<bar>i\<bar>"
  define ms where "ms = loop_mags a (a div 2) (max (a div 2) 1)"
  define xs where "xs = (if a = 0 then [] else 0 # concat (map (\<lambda>j. [j, - j]) ms))"
  have shr: "integer_shrink i = Some xs"
    unfolding xs_def a_def ms_def by (rule integer_shrink_mags [OF assms])
  have ms_bounds: "0 \<le> c \<and> c < a" if "c \<in> set ms" for c
  proof -
    from that have "a div 2 \<le> c \<and> c < a"
      unfolding ms_def by (rule loop_mags_bounds)
    moreover have "0 \<le> a div 2"
      by (simp add: a_def)
    ultimately show ?thesis by linarith
  qed
  have strict: "\<bar>c\<bar> < a" if "c \<in> set xs" for c
  proof (cases "a = 0")
    case True
    with that show ?thesis by (simp add: xs_def)
  next
    case False
    with that have "c = 0 \<or> (\<exists>m \<in> set ms. c = m \<or> c = - m)"
      by (auto simp: xs_def)
    then show ?thesis
    proof
      assume "c = 0"
      with False show ?thesis by (simp add: a_def)
    next
      assume "\<exists>m \<in> set ms. c = m \<or> c = - m"
      then obtain m where "m \<in> set ms" "c = m \<or> c = - m" by blast
      with ms_bounds [of m] show ?thesis by auto
    qed
  qed
  have p1: "\<forall>c \<in> set xs. \<bar>c\<bar> \<le> \<bar>i\<bar>"
    using strict by (auto simp: a_def dest: order.strict_implies_order)
  have p2: "i \<notin> set xs"
    using strict [of i] by (auto simp: a_def)
  have p3: "\<bar>i\<bar> = 0 \<longrightarrow> xs = []"
    by (simp add: xs_def a_def)
  have p4: "\<bar>i\<bar> \<noteq> 0 \<longrightarrow>
        (\<exists>N. xs = 0 # concat (map (\<lambda>n. [shrink_mag \<bar>i\<bar> n, - shrink_mag \<bar>i\<bar> n]) [0..<N])
             \<and> shrink_mag \<bar>i\<bar> 0 = \<bar>i\<bar> div 2
             \<and> (\<forall>n<N. shrink_mag \<bar>i\<bar> n < \<bar>i\<bar>)
             \<and> \<bar>i\<bar> \<le> shrink_mag \<bar>i\<bar> N)"
  proof
    assume nz: "\<bar>i\<bar> \<noteq> 0"
    from loop_mags_spec [of a "a div 2" "max (a div 2) 1"]
    obtain N where N: "ms = map (shrink_mag a) [0..<N]"
      "\<forall>n<N. shrink_mag a n < a" "a \<le> shrink_mag a N"
      unfolding ms_def shrink_mag_def [abs_def] by blast
    have "xs = 0 # concat (map (\<lambda>j. [j, - j]) (map (shrink_mag a) [0..<N]))"
      using nz N(1) by (simp add: xs_def a_def)
    then have "xs = 0 # concat (map (\<lambda>n. [shrink_mag a n, - shrink_mag a n]) [0..<N])"
      by (simp add: comp_def)
    moreover have "shrink_mag a 0 = a div 2"
      by (simp add: shrink_mag_def)
    ultimately show "\<exists>N. xs
               = 0 # concat (map (\<lambda>n. [shrink_mag \<bar>i\<bar> n, - shrink_mag \<bar>i\<bar> n]) [0..<N])
             \<and> shrink_mag \<bar>i\<bar> 0 = \<bar>i\<bar> div 2
             \<and> (\<forall>n<N. shrink_mag \<bar>i\<bar> n < \<bar>i\<bar>)
             \<and> \<bar>i\<bar> \<le> shrink_mag \<bar>i\<bar> N"
      using N(2,3) unfolding a_def by blast
  qed
  from shr p1 p2 p3 p4 show ?thesis by blast
qed

theorem integer_shrink_candidates_witness:
  "\<bar>- 7 :: int\<bar> \<le> 9007199254740992 \<and> \<bar>- 7 :: int\<bar> \<noteq> 0
   \<and> integer_shrink (- 7) = Some [0, 3, - 3, 4, - 4, 5, - 5, 6, - 6]
   \<and> (\<exists>xs. integer_shrink (- 7) = Some xs
         \<and> - 6 \<in> set xs \<and> \<bar>- 6 :: int\<bar> \<le> \<bar>- 7\<bar>
         \<and> - 7 \<notin> set xs
         \<and> (\<exists>N. xs = 0 # concat (map (\<lambda>n. [shrink_mag \<bar>- 7\<bar> n, - shrink_mag \<bar>- 7\<bar> n]) [0..<N])
               \<and> shrink_mag \<bar>- 7\<bar> 0 = \<bar>- 7\<bar> div 2
               \<and> (\<forall>n<N. shrink_mag \<bar>- 7\<bar> n < \<bar>- 7\<bar>)
               \<and> \<bar>- 7\<bar> \<le> shrink_mag \<bar>- 7\<bar> N))
   \<and> \<bar>0 :: int\<bar> \<le> 9007199254740992 \<and> \<bar>0 :: int\<bar> = 0
   \<and> integer_shrink 0 = Some []"
proof -
  have h: "\<bar>- 7 :: int\<bar> \<le> 9007199254740992" and nz: "\<bar>- 7 :: int\<bar> \<noteq> 0" by simp_all
  have ev: "integer_shrink (- 7) = Some [0, 3, - 3, 4, - 4, 5, - 5, 6, - 6]" by code_simp
  have h0: "\<bar>0 :: int\<bar> \<le> 9007199254740992" and z: "\<bar>0 :: int\<bar> = 0" by simp_all
  from integer_shrink_candidates [OF h] obtain xs where xs: "integer_shrink (- 7) = Some xs"
    "\<forall>c \<in> set xs. \<bar>c\<bar> \<le> \<bar>- 7\<bar>" "- 7 \<notin> set xs"
    "\<bar>- 7 :: int\<bar> \<noteq> 0 \<longrightarrow>
        (\<exists>N. xs = 0 # concat (map (\<lambda>n. [shrink_mag \<bar>- 7\<bar> n, - shrink_mag \<bar>- 7\<bar> n]) [0..<N])
             \<and> shrink_mag \<bar>- 7\<bar> 0 = \<bar>- 7\<bar> div 2
             \<and> (\<forall>n<N. shrink_mag \<bar>- 7\<bar> n < \<bar>- 7\<bar>)
             \<and> \<bar>- 7\<bar> \<le> shrink_mag \<bar>- 7\<bar> N)"
    by blast
  from xs(1) ev have "xs = [0, 3, - 3, 4, - 4, 5, - 5, 6, - 6]" by simp
  then have mem: "- 6 \<in> set xs" by simp
  with xs(2) have le: "\<bar>- 6 :: int\<bar> \<le> \<bar>- 7\<bar>" by blast
  from xs(4) nz
  have sh: "\<exists>N. xs = 0 # concat (map (\<lambda>n. [shrink_mag \<bar>- 7\<bar> n, - shrink_mag \<bar>- 7\<bar> n]) [0..<N])
             \<and> shrink_mag \<bar>- 7\<bar> 0 = \<bar>- 7\<bar> div 2
             \<and> (\<forall>n<N. shrink_mag \<bar>- 7\<bar> n < \<bar>- 7\<bar>)
             \<and> \<bar>- 7\<bar> \<le> shrink_mag \<bar>- 7\<bar> N"
    by (rule mp)
  from xs(1) mem le xs(3) sh
  have a: "\<exists>xs. integer_shrink (- 7) = Some xs
         \<and> - 6 \<in> set xs \<and> \<bar>- 6 :: int\<bar> \<le> \<bar>- 7\<bar>
         \<and> - 7 \<notin> set xs
         \<and> (\<exists>N. xs = 0 # concat (map (\<lambda>n. [shrink_mag \<bar>- 7\<bar> n, - shrink_mag \<bar>- 7\<bar> n]) [0..<N])
               \<and> shrink_mag \<bar>- 7\<bar> 0 = \<bar>- 7\<bar> div 2
               \<and> (\<forall>n<N. shrink_mag \<bar>- 7\<bar> n < \<bar>- 7\<bar>)
               \<and> \<bar>- 7\<bar> \<le> shrink_mag \<bar>- 7\<bar> N)"
    by (intro exI [of _ xs] conjI)
  from integer_shrink_candidates [OF h0] z have b: "integer_shrink 0 = Some []"
    by auto
  show ?thesis
    by (intro conjI h nz ev a h0 z b)
qed

subsection \<open>C3: the nat shrinker\<close>

text \<open>
  Claim C3 as stated speaks of every natural number. It fails above \<open>2^53\<close>: for
  \<open>n = 2^53 + 2 = 9007199254740994\<close> the loop of the nat shrinker stalls at \<open>j = 2^53\<close>
  as that of the integer shrinker does, and no sequence is returned.
\<close>

theorem nat_shrink_candidates_counterexample:
  "round_double 9007199254740994 = 9007199254740994
   \<and> nat_shrink 9007199254740994 = None"
proof -
  have "nat_shrink 9007199254740994 = None"
  proof (cases "nat_shrink 9007199254740994")
    case None
    then show ?thesis .
  next
    case (Some y)
    then have "nat_loop 9007199254740994 4503599627370497 4503599627370497 [] = Some y"
      by (simp add: nat_shrink_def Let_def div2_def)
    from nat_loop_stuck [OF this] stuck_initial show ?thesis
      by simp
  qed
  with round_double_2_53_2 show ?thesis by simp
qed

text \<open>
  Claim C3, amended. For every natural number \<open>n \<le> 2^53\<close> the nat shrinker returns a
  list of non-negative candidates (all of them below \<open>n\<close>), with at least one candidate
  strictly less than \<open>n\<close> when \<open>n > 0\<close>, and the empty list when \<open>n = 0\<close>. It emits no
  negated value: its candidates are exactly the magnitudes of which the integer shrinker
  emits \<open>+j\<close> and \<open>-j\<close>.
\<close>

theorem nat_shrink_candidates:
  assumes "0 \<le> n" and "n \<le> 9007199254740992"
  shows "\<exists>xs. nat_shrink n = Some xs
         \<and> (\<forall>c \<in> set xs. 0 \<le> c \<and> c < n)
         \<and> (0 < n \<longrightarrow> (\<exists>c \<in> set xs. c < n))
         \<and> (n = 0 \<longrightarrow> xs = [])
         \<and> (0 < n \<longrightarrow> integer_shrink n = Some (0 # concat (map (\<lambda>j. [j, - j]) xs)))"
proof -
  define xs where "xs = loop_mags n (n div 2) (max (n div 2) 1)"
  have shr: "nat_shrink n = Some xs"
    unfolding xs_def by (rule nat_shrink_mags [OF assms])
  have half: "0 \<le> n div 2"
    using assms(1) by simp
  have p1: "\<forall>c \<in> set xs. 0 \<le> c \<and> c < n"
  proof
    fix c assume "c \<in> set xs"
    then have "n div 2 \<le> c \<and> c < n"
      unfolding xs_def by (rule loop_mags_bounds)
    with half show "0 \<le> c \<and> c < n" by linarith
  qed
  have p2: "0 < n \<longrightarrow> (\<exists>c \<in> set xs. c < n)"
  proof
    assume pos: "0 < n"
    then have lt: "n div 2 < n" by linarith
    then have "n div 2 \<in> set xs"
      unfolding xs_def by (rule loop_mags_first)
    with lt show "\<exists>c \<in> set xs. c < n" by blast
  qed
  have p3: "n = 0 \<longrightarrow> xs = []"
  proof
    assume "n = 0"
    then have "\<not> n div 2 < n" by simp
    then show "xs = []"
      unfolding xs_def by (rule loop_mags_none)
  qed
  have p4: "0 < n \<longrightarrow> integer_shrink n = Some (0 # concat (map (\<lambda>j. [j, - j]) xs))"
  proof
    assume "0 < n"
    then have abs: "\<bar>n\<bar> = n" and nz: "\<bar>n\<bar> \<noteq> 0" by simp_all
    from assms abs have "\<bar>n\<bar> \<le> 9007199254740992" by simp
    from integer_shrink_mags [OF this] nz
    show "integer_shrink n = Some (0 # concat (map (\<lambda>j. [j, - j]) xs))"
      by (simp only: abs xs_def if_False)
  qed
  from shr p1 p2 p3 p4 show ?thesis by blast
qed

theorem nat_shrink_candidates_witness:
  "(0 :: int) \<le> 100 \<and> (100 :: int) \<le> 9007199254740992 \<and> (0 :: int) < 100
   \<and> nat_shrink 100 = Some [50, 75, 87, 93, 96, 97, 98, 99]
   \<and> (\<exists>xs. nat_shrink 100 = Some xs
         \<and> 99 \<in> set xs \<and> (0 :: int) \<le> 99 \<and> (99 :: int) < 100
         \<and> (\<exists>c \<in> set xs. c < 100)
         \<and> integer_shrink 100 = Some (0 # concat (map (\<lambda>j. [j, - j]) xs)))
   \<and> (0 :: int) \<le> 0 \<and> (0 :: int) \<le> 9007199254740992
   \<and> nat_shrink 0 = Some []"
proof -
  have h: "(0 :: int) \<le> 100" and hb: "(100 :: int) \<le> 9007199254740992"
    and pos: "(0 :: int) < 100" by simp_all
  have ev: "nat_shrink 100 = Some [50, 75, 87, 93, 96, 97, 98, 99]" by code_simp
  from nat_shrink_candidates [OF h hb] obtain xs where xs: "nat_shrink 100 = Some xs"
    "\<forall>c \<in> set xs. 0 \<le> c \<and> c < 100"
    "0 < (100 :: int) \<longrightarrow> (\<exists>c \<in> set xs. c < 100)"
    "0 < (100 :: int) \<longrightarrow> integer_shrink 100 = Some (0 # concat (map (\<lambda>j. [j, - j]) xs))"
    by blast
  from xs(1) ev have "xs = [50, 75, 87, 93, 96, 97, 98, 99]" by simp
  then have mem: "99 \<in> set xs" by simp
  with xs(2) have bnd: "(0 :: int) \<le> 99" "(99 :: int) < 100" by simp_all
  from xs(3) pos have ex: "\<exists>c \<in> set xs. c < 100" by (rule mp)
  from xs(4) pos have rel: "integer_shrink 100 = Some (0 # concat (map (\<lambda>j. [j, - j]) xs))"
    by (rule mp)
  from xs(1) mem bnd ex rel
  have a: "\<exists>xs. nat_shrink 100 = Some xs
         \<and> 99 \<in> set xs \<and> (0 :: int) \<le> 99 \<and> (99 :: int) < 100
         \<and> (\<exists>c \<in> set xs. c < 100)
         \<and> integer_shrink 100 = Some (0 # concat (map (\<lambda>j. [j, - j]) xs))"
    by (intro exI [of _ xs] conjI)
  have z: "(0 :: int) \<le> 0" and zb: "(0 :: int) \<le> 9007199254740992" by simp_all
  from nat_shrink_candidates [OF z zb] have b: "nat_shrink 0 = Some []"
    by auto
  show ?thesis
    by (intro conjI h hb pos ev a z zb b)
qed

subsection \<open>Random sources and generators\<close>

lemma rng_ok_lo: "rng_ok rng_lo"
  by (simp add: rng_ok_def rng_lo_def)

lemma rng_ok_hi: "rng_ok rng_hi"
  by (simp add: rng_ok_def rng_hi_def)

lemma rng_ok_pick: "rng_ok (rng_pick v)"
  by (simp add: rng_ok_def rng_pick_def)

lemma rng_okD_int:
  "rng_ok r \<Longrightarrow> lo \<le> hi \<Longrightarrow> lo \<le> random_int r lo hi \<and> random_int r lo hi \<le> hi"
  by (simp add: rng_ok_def)

lemma rng_okD_number:
  "rng_ok r \<Longrightarrow> lo \<le> hi \<Longrightarrow> lo \<le> random_number r lo hi \<and> random_number r lo hi \<le> hi"
  by (simp add: rng_ok_def)

lemma generator_integer_impl:
  "generator (integer_impl maxsize) r sz
     = random_int r (- or_size maxsize (int sz)) (or_size maxsize (int sz))"
  by (simp add: integer_impl_def Let_def)

lemma generator_number_impl:
  "generator (number_impl maxsize) r sz
     = random_number r (- or_size maxsize (real sz)) (or_size maxsize (real sz))"
  by (simp add: number_impl_def Let_def)

lemma generator_nat_arb:
  "generator (nat_arb maxsize) r sz = random_int r 0 (or_size maxsize (int sz))"
  by (simp add: nat_arb_def Let_def)

lemma generator_numeric_two:
  "generator (numeric impl [minsize, maxsize]) r sz
     = numeric_to minsize (generator (impl (Some (maxsize - minsize))) r sz)"
  by (simp add: Let_def gen_map_def)

lemma shrink_numeric_two:
  "shrink (numeric impl [minsize, maxsize]) u
     = map_option (map (numeric_to minsize))
         (shrink (impl (Some (maxsize - minsize))) (numeric_from minsize u))"
  by (simp add: Let_def isomap_def)

declare numeric.simps [simp del]


subsection \<open>C1: the range of the two-argument integer generator\<close>

text \<open>
  Claim C1 as stated bounds the raw value of every two-argument call by the span. It fails
  when the span is 0: \<open>integer(5, 5)\<close> calls \<open>impl(0)\<close>, \<open>0 || size\<close> is the size hint, and at
  size 3 a random source that answers with the upper bound yields \<open>|3| + 5 = 8\<close>, outside
  \<open>[5, 5 + 0]\<close>.
\<close>

theorem integer_two_args_range_counterexample:
  "rng_ok rng_hi \<and> generator (integer [5, 5]) rng_hi 3 = 8
   \<and> \<not> (generator (integer [5, 5]) rng_hi 3 \<le> 5 + (5 - 5))"
proof -
  have "generator (integer [5, 5]) rng_hi 3 = 8"
    by (simp add: integer_def generator_numeric_two generator_integer_impl
        numeric_to_def or_size_def rng_hi_def)
  with rng_ok_hi show ?thesis by simp
qed

text \<open>
  Claim C1, amended. For a random source that keeps within its bounds: when
  \<open>minsize < maxsize\<close>, \<open>integer(minsize, maxsize)\<close> yields \<open>minsize + |x|\<close> for the raw value
  \<open>x\<close> of \<open>impl(span)\<close>, \<open>|x| \<le> span = maxsize - minsize\<close>, so the value lies in
  \<open>[minsize, minsize + span]\<close>; when \<open>minsize = maxsize\<close> the same form holds with
  \<open>|x|\<close> bounded by the size hint instead. In particular \<open>integer(10, 20)\<close> always yields a
  value in \<open>[10, 30]\<close>.
\<close>

theorem integer_two_args_range:
  assumes "rng_ok r"
  shows "(minsize < maxsize \<longrightarrow>
            generator (integer [minsize, maxsize]) r sz
              = minsize + \<bar>generator (integer_impl (Some (maxsize - minsize))) r sz\<bar>
          \<and> \<bar>generator (integer_impl (Some (maxsize - minsize))) r sz\<bar> \<le> maxsize - minsize
          \<and> minsize \<le> generator (integer [minsize, maxsize]) r sz
          \<and> generator (integer [minsize, maxsize]) r sz \<le> minsize + (maxsize - minsize))
       \<and> (minsize = maxsize \<longrightarrow>
            generator (integer [minsize, maxsize]) r sz
              = minsize + \<bar>generator (integer_impl (Some (maxsize - minsize))) r sz\<bar>
          \<and> \<bar>generator (integer_impl (Some (maxsize - minsize))) r sz\<bar> \<le> int sz
          \<and> minsize \<le> generator (integer [minsize, maxsize]) r sz
          \<and> generator (integer [minsize, maxsize]) r sz \<le> minsize + int sz)
       \<and> 10 \<le> generator (integer [10, 20]) r sz
       \<and> generator (integer [10, 20]) r sz \<le> 30"
proof -
  have form: "generator (integer [a, b]) r sz
                = a + \<bar>generator (integer_impl (Some (b - a))) r sz\<bar>" for a b
    by (simp add: integer_def generator_numeric_two numeric_to_def)
  have raw: "\<bar>generator (integer_impl (Some s)) r sz\<bar> \<le> (if s = 0 then int sz else s)"
    if "0 \<le> s" for s
  proof -
    define b where "b = or_size (Some s) (int sz)"
    have b: "b = (if s = 0 then int sz else s)"
      by (simp add: b_def or_size_def)
    with that have "- b \<le> b" by simp
    from rng_okD_int [OF assms this]
    have "\<bar>random_int r (- b) b\<bar> \<le> b" by linarith
    then show ?thesis
      unfolding generator_integer_impl b_def [symmetric] b .
  qed
  have p1: "minsize < maxsize \<longrightarrow>
            generator (integer [minsize, maxsize]) r sz
              = minsize + \<bar>generator (integer_impl (Some (maxsize - minsize))) r sz\<bar>
          \<and> \<bar>generator (integer_impl (Some (maxsize - minsize))) r sz\<bar> \<le> maxsize - minsize
          \<and> minsize \<le> generator (integer [minsize, maxsize]) r sz
          \<and> generator (integer [minsize, maxsize]) r sz \<le> minsize + (maxsize - minsize)"
  proof
    assume lt: "minsize < maxsize"
    then have "0 \<le> maxsize - minsize" "maxsize - minsize \<noteq> 0" by simp_all
    with raw [of "maxsize - minsize"]
    have "\<bar>generator (integer_impl (Some (maxsize - minsize))) r sz\<bar> \<le> maxsize - minsize"
      by simp
    with form [of minsize maxsize]
    show "generator (integer [minsize, maxsize]) r sz
              = minsize + \<bar>generator (integer_impl (Some (maxsize - minsize))) r sz\<bar>
          \<and> \<bar>generator (integer_impl (Some (maxsize - minsize))) r sz\<bar> \<le> maxsize - minsize
          \<and> minsize \<le> generator (integer [minsize, maxsize]) r sz
          \<and> generator (integer [minsize, maxsize]) r sz \<le> minsize + (maxsize - minsize)"
      by linarith
  qed
  have p2: "minsize = maxsize \<longrightarrow>
            generator (integer [minsize, maxsize]) r sz
              = minsize + \<bar>generator (integer_impl (Some (maxsize - minsize))) r sz\<bar>
          \<and> \<bar>generator (integer_impl (Some (maxsize - minsize))) r sz\<bar> \<le> int sz
          \<and> minsize \<le> generator (integer [minsize, maxsize]) r sz
          \<and> generator (integer [minsize, maxsize]) r sz \<le> minsize + int sz"
  proof
    assume eq: "minsize = maxsize"
    with raw [of "maxsize - minsize"]
    have "\<bar>generator (integer_impl (Some (maxsize - minsize))) r sz\<bar> \<le> int sz"
      by simp
    with form [of minsize maxsize]
    show "generator (integer [minsize, maxsize]) r sz
              = minsize + \<bar>generator (integer_impl (Some (maxsize - minsize))) r sz\<bar>
          \<and> \<bar>generator (integer_impl (Some (maxsize - minsize))) r sz\<bar> \<le> int sz
          \<and> minsize \<le> generator (integer [minsize, maxsize]) r sz
          \<and> generator (integer [minsize, maxsize]) r sz \<le> minsize + int sz"
      by linarith
  qed
  have p3: "10 \<le> generator (integer [10, 20]) r sz \<and> generator (integer [10, 20]) r sz \<le> 30"
  proof -
    from raw [of "20 - 10"]
    have "\<bar>generator (integer_impl (Some (20 - 10))) r sz\<bar> \<le> 10" by simp
    with form [of 10 20] show ?thesis by linarith
  qed
  from p1 p2 p3 show ?thesis by blast
qed


theorem integer_two_args_range_witness:
  "rng_ok rng_lo \<and> (10 :: int) < 20 \<and> (5 :: int) = 5
   \<and> generator (integer [10, 20]) rng_lo 3 = 20
   \<and> 10 \<le> generator (integer [10, 20]) rng_lo 3
   \<and> generator (integer [10, 20]) rng_lo 3 \<le> 10 + (20 - 10)
   \<and> 5 \<le> generator (integer [5, 5]) rng_lo 3
   \<and> generator (integer [5, 5]) rng_lo 3 \<le> 5 + int 3"
proof -
  have lt: "(10 :: int) < 20" by simp
  have ev: "generator (integer [10, 20]) rng_lo 3 = 20"
    by (simp add: integer_def generator_numeric_two generator_integer_impl
        numeric_to_def or_size_def rng_lo_def)
  from integer_two_args_range [OF rng_ok_lo, of 10 20 3] lt
  have a: "10 \<le> generator (integer [10, 20]) rng_lo 3
     \<and> generator (integer [10, 20]) rng_lo 3 \<le> 10 + (20 - 10)"
    by blast
  from integer_two_args_range [OF rng_ok_lo, of 5 5 3]
  have b: "5 \<le> generator (integer [5, 5]) rng_lo 3
     \<and> generator (integer [5, 5]) rng_lo 3 \<le> 5 + int 3"
    by blast
  from rng_ok_lo lt ev a b show ?thesis by blast
qed

subsection \<open>C4: the number shrinker\<close>

text \<open>
  Claim C4. For every number \<open>x\<close> the shrinker of the number arbitrary yields exactly the
  three candidates \<open>[0, x/2, -x/2]\<close> when \<open>|x| > 1e-6\<close> and no candidate when
  \<open>|x| \<le> 1e-6\<close>, whatever \<open>maxsize\<close> the arbitrary was built with (and it returns in
  both cases).
\<close>

theorem number_shrink_cases:
  "(\<bar>x\<bar> > 1 / 1000000 \<longrightarrow> shrink (number_impl maxsize) x = Some [0, x / 2, - x / 2])
   \<and> (\<bar>x\<bar> \<le> 1 / 1000000 \<longrightarrow> shrink (number_impl maxsize) x = Some [])
   \<and> shrink (number []) x = shrink (number_impl None) x
   \<and> shrink (number [m]) x = shrink (number_impl (Some m)) x"
  by (simp add: number_impl_def number_shrink_def number_def numeric.simps)

theorem number_shrink_cases_witness:
  "\<bar>3 :: real\<bar> > 1 / 1000000 \<and> shrink (number_impl None) 3 = Some [0, 3 / 2, - 3 / 2]
   \<and> \<bar>1 / 1000000 :: real\<bar> \<le> 1 / 1000000
   \<and> shrink (number_impl None) (1 / 1000000) = Some []"
proof -
  have h1: "\<bar>3 :: real\<bar> > 1 / 1000000" by simp
  have h2: "\<bar>1 / 1000000 :: real\<bar> \<le> 1 / 1000000" by simp
  from number_shrink_cases [of 3 None] h1
  have a: "shrink (number_impl None) 3 = Some [0, 3 / 2, - 3 / 2]" by blast
  from number_shrink_cases [of "1 / 1000000" None] h2
  have b: "shrink (number_impl None) (1 / 1000000) = Some []" by blast
  from h1 h2 a b show ?thesis by blast
qed

subsection \<open>C10: the round trip of the rescaling pair\<close>



subsection \<open>C9: a maximum size of 0 is ignored\<close>

text \<open>
  Claim C9. A caller-fixed maximum of 0 is falsy in \<open>maxsize || size\<close>, so the size hint is
  used: the generator of \<open>nat(0)\<close> is that of \<open>nat()\<close>, draws from \<open>[0, size]\<close> and can yield
  every value of that range; the generator of \<open>integer(0)\<close> is that of \<open>integer()\<close>, draws
  from \<open>[-size, size]\<close> and can yield every value of it; and \<open>integer(m, m)\<close> and
  \<open>number(m, m)\<close> yield \<open>|x| + m\<close> for a raw \<open>x\<close> drawn from \<open>[-size, size]\<close>.
\<close>

theorem zero_maxsize_ignored:
  "generator (nat_arb (Some 0)) r sz = generator (nat_arb None) r sz
   \<and> generator (nat_arb (Some 0)) r sz = random_int r 0 (int sz)
   \<and> (\<forall>v. 0 \<le> v \<and> v \<le> int sz \<longrightarrow>
          (\<exists>r'. rng_ok r' \<and> generator (nat_arb (Some 0)) r' sz = v))
   \<and> generator (integer [0]) r sz = generator (integer []) r sz
   \<and> generator (integer [0]) r sz = random_int r (- int sz) (int sz)
   \<and> (rng_ok r \<longrightarrow> - int sz \<le> generator (integer [0]) r sz
                    \<and> generator (integer [0]) r sz \<le> int sz)
   \<and> (\<forall>v. - int sz \<le> v \<and> v \<le> int sz \<longrightarrow>
          (\<exists>r'. rng_ok r' \<and> generator (integer [0]) r' sz = v))
   \<and> generator (integer [m, m]) r sz = \<bar>random_int r (- int sz) (int sz)\<bar> + m
   \<and> generator (number [x, x]) r sz = \<bar>random_number r (- real sz) (real sz)\<bar> + x"
proof -
  have n1: "generator (nat_arb (Some 0)) r' sz = random_int r' 0 (int sz)" for r'
    by (simp add: generator_nat_arb or_size_def)
  have n2: "generator (nat_arb None) r sz = random_int r 0 (int sz)"
    by (simp add: generator_nat_arb or_size_def)
  have n3: "\<forall>v. 0 \<le> v \<and> v \<le> int sz \<longrightarrow>
          (\<exists>r'. rng_ok r' \<and> generator (nat_arb (Some 0)) r' sz = v)"
  proof (intro allI impI)
    fix v assume "0 \<le> v \<and> v \<le> int sz"
    then have "generator (nat_arb (Some 0)) (rng_pick v) sz = v"
      by (simp add: n1 rng_pick_def)
    with rng_ok_pick [of v]
    show "\<exists>r'. rng_ok r' \<and> generator (nat_arb (Some 0)) r' sz = v" by blast
  qed
  have i1: "generator (integer [0]) r' sz = random_int r' (- int sz) (int sz)" for r'
    by (simp add: integer_def numeric.simps generator_integer_impl or_size_def)
  have i2: "generator (integer []) r sz = random_int r (- int sz) (int sz)"
    by (simp add: integer_def numeric.simps generator_integer_impl or_size_def)
  have i3: "rng_ok r \<longrightarrow> - int sz \<le> generator (integer [0]) r sz
                    \<and> generator (integer [0]) r sz \<le> int sz"
  proof
    assume ok: "rng_ok r"
    have "- int sz \<le> int sz" by simp
    from rng_okD_int [OF ok this]
    show "- int sz \<le> generator (integer [0]) r sz \<and> generator (integer [0]) r sz \<le> int sz"
      by (simp only: i1)
  qed
  have i4: "\<forall>v. - int sz \<le> v \<and> v \<le> int sz \<longrightarrow>
          (\<exists>r'. rng_ok r' \<and> generator (integer [0]) r' sz = v)"
  proof (intro allI impI)
    fix v assume "- int sz \<le> v \<and> v \<le> int sz"
    then have "generator (integer [0]) (rng_pick v) sz = v"
      by (simp add: i1 rng_pick_def)
    with rng_ok_pick [of v]
    show "\<exists>r'. rng_ok r' \<and> generator (integer [0]) r' sz = v" by blast
  qed
  have t1: "generator (integer [m, m]) r sz = \<bar>random_int r (- int sz) (int sz)\<bar> + m"
    by (simp add: integer_def generator_numeric_two generator_integer_impl
        or_size_def numeric_to_def)
  have t2: "generator (number [x, x]) r sz = \<bar>random_number r (- real sz) (real sz)\<bar> + x"
    by (simp add: number_def generator_numeric_two generator_number_impl
        or_size_def numeric_to_def)
  from n1 [of r] n2 n3 i1 [of r] i2 i3 i4 t1 t2 show ?thesis
    by (simp only: simp_thms)
qed

theorem zero_maxsize_ignored_witness:
  "rng_ok rng_hi
   \<and> generator (nat_arb (Some 0)) rng_hi 3 = 3
   \<and> (0 :: int) \<le> 2 \<and> (2 :: int) \<le> int 3
   \<and> (\<exists>r'. rng_ok r' \<and> generator (nat_arb (Some 0)) r' 3 = 2)
   \<and> - int 3 \<le> (- 2 :: int)
   \<and> (\<exists>r'. rng_ok r' \<and> generator (integer [0]) r' 3 = - 2)
   \<and> - int 3 \<le> generator (integer [0]) rng_hi 3 \<and> generator (integer [0]) rng_hi 3 \<le> int 3
   \<and> generator (integer [5, 5]) rng_hi 3 = 8
   \<and> generator (number [5, 5]) rng_hi 3 = 8"
proof -
  note t = zero_maxsize_ignored [of rng_hi 3 5 5]
  have h: "(0 :: int) \<le> 2" "(2 :: int) \<le> int 3" "- int 3 \<le> (- 2 :: int)" "(- 2 :: int) \<le> int 3"
    by simp_all
  from t have a: "generator (nat_arb (Some 0)) rng_hi 3 = 3"
    by (simp add: rng_hi_def)
  from t h have b: "\<exists>r'. rng_ok r' \<and> generator (nat_arb (Some 0)) r' 3 = 2"
    by blast
  from t h have c: "\<exists>r'. rng_ok r' \<and> generator (integer [0]) r' 3 = - 2"
    by blast
  from t rng_ok_hi
  have d: "- int 3 \<le> generator (integer [0]) rng_hi 3 \<and> generator (integer [0]) rng_hi 3 \<le> int 3"
    by blast
  from t have e: "generator (integer [5, 5]) rng_hi 3 = 8"
    by (simp add: rng_hi_def)
  from t have f: "generator (number [5, 5]) rng_hi 3 = 8"
    by (simp add: rng_hi_def)
  from rng_ok_hi h a b c d e f show ?thesis by blast
qed

subsection \<open>Enumerated choices\<close>

lemma strict_eq_iff: "strict_eq y v \<longleftrightarrow> v \<noteq> JNaN \<and> y = v"
  by (auto simp: strict_eq_def)

lemma indexOf_from_takeWhile:
  "indexOf_from xs x k
     = (if x \<noteq> JNaN \<and> x \<in> set xs then k + int (length (takeWhile (\<lambda>y. y \<noteq> x) xs)) else - 1)"
  by (induction xs arbitrary: k) (auto simp: strict_eq_iff)

lemma indexOf_takeWhile:
  "indexOf xs x
     = (if x \<noteq> JNaN \<and> x \<in> set xs then int (length (takeWhile (\<lambda>y. y \<noteq> x) xs)) else - 1)"
  by (simp add: indexOf_def indexOf_from_takeWhile)

lemma slice0_take: "0 \<le> e \<Longrightarrow> slice0 xs e = take (nat e) xs"
  by (simp add: slice0_def Let_def min_def)

lemma elements_shrink_takeWhile:
  "elements_shrink args v
     = Some (if v \<noteq> JNaN \<and> v \<in> set args \<and> hd args \<noteq> v
             then takeWhile (\<lambda>y. y \<noteq> v) args else [])"
proof (cases "v \<noteq> JNaN \<and> v \<in> set args")
  case False
  then show ?thesis
    by (auto simp: elements_shrink_def indexOf_takeWhile)
next
  case True
  define pre where "pre = takeWhile (\<lambda>y. y \<noteq> v) args"
  have idx: "indexOf args v = int (length pre)"
    using True by (simp add: indexOf_takeWhile pre_def)
  have tk: "take (length pre) args = pre"
    unfolding pre_def by (rule takeWhile_eq_take [symmetric])
  have emp: "pre = [] \<longleftrightarrow> hd args = v"
    using True unfolding pre_def by (cases args) auto
  show ?thesis
  proof (cases "hd args = v")
    case True
    with emp have "pre = []" by simp
    with idx True show ?thesis
      by (simp add: elements_shrink_def)
  next
    case False
    with emp have "pre \<noteq> []" by simp
    then have "\<not> int (length pre) \<le> 0" by simp
    with idx tk False True show ?thesis
      by (simp add: elements_shrink_def slice0_take pre_def [symmetric])
  qed
qed

lemma shrink_elements: "elements args = Inr arb \<Longrightarrow> shrink arb = elements_shrink args"
  by (auto simp: elements_def split: if_splits)

lemma elements_falsy_list: "elements falsy_list = Inr (projr (elements falsy_list))"
  by (simp add: elements_def falsy_list_def)

subsection \<open>C5: \<open>elements\<close> with an empty list\<close>



subsection \<open>C6: the shrinker of \<open>elements\<close>\<close>

text \<open>
  Claim C6 as stated speaks of every value \<open>v\<close>. It fails for \<open>NaN\<close>: \<open>indexOf\<close> compares
  with \<open>===\<close>, which \<open>NaN\<close> never satisfies. In the list of \<open>falsy\<close> (line 319) \<open>NaN\<close> is at
  index 5, preceded by five elements, and its shrink is empty.
\<close>

theorem elements_shrink_precedes_counterexample:
  "falsy_list = [JBoolean False, JNull, JUndefined, JString [], JNumber 0, JNaN]
   \<and> elements falsy_list = Inr (projr (elements falsy_list))
   \<and> shrink (projr (elements falsy_list)) JNaN = Some []"
proof -
  have "shrink (projr (elements falsy_list)) JNaN = elements_shrink falsy_list JNaN"
    by (simp add: shrink_elements [OF elements_falsy_list])
  then have "shrink (projr (elements falsy_list)) JNaN = Some []"
    by (simp add: elements_shrink_takeWhile)
  with elements_falsy_list show ?thesis
    by (simp add: falsy_list_def)
qed

text \<open>
  Claim C6, amended. For a non-empty list and any value \<open>v\<close>, the shrinker of
  \<open>elements(list)\<close> returns no candidate when \<open>v\<close> is \<open>NaN\<close>, when \<open>v\<close> is absent from the
  list, or when \<open>v\<close> is the first element (its index is 0); otherwise, \<open>v\<close> being a value
  other than \<open>NaN\<close> that occurs in the list, it returns exactly the elements that precede
  the first occurrence of \<open>v\<close>, in their order in the list. \<open>indexOf\<close> is the length of that
  prefix, or \<open>-1\<close> for \<open>NaN\<close> and for an absent value. For \<open>elements([a, b, c])\<close>,
  shrinking \<open>c\<close> (not \<open>NaN\<close>, distinct from \<open>a\<close> and \<open>b\<close>) yields \<open>[a, b]\<close> and shrinking \<open>a\<close>
  yields \<open>[]\<close>.
\<close>

theorem elements_shrink_precedes:
  assumes "args \<noteq> []" and "elements args = Inr arb"
  shows "(v = JNaN \<or> v \<notin> set args \<or> hd args = v \<longrightarrow> shrink arb v = Some [])
       \<and> (v \<noteq> JNaN \<and> v \<in> set args \<and> hd args \<noteq> v \<longrightarrow>
            shrink arb v = Some (takeWhile (\<lambda>y. y \<noteq> v) args)
            \<and> (\<exists>rest. args = takeWhile (\<lambda>y. y \<noteq> v) args @ v # rest)
            \<and> v \<notin> set (takeWhile (\<lambda>y. y \<noteq> v) args)
            \<and> takeWhile (\<lambda>y. y \<noteq> v) args = take (nat (indexOf args v)) args
            \<and> 0 < indexOf args v)
       \<and> indexOf args v
            = (if v \<noteq> JNaN \<and> v \<in> set args
               then int (length (takeWhile (\<lambda>y. y \<noteq> v) args)) else - 1)
       \<and> (c \<noteq> JNaN \<and> a \<noteq> c \<and> b \<noteq> c \<longrightarrow> elements_shrink [a, b, c] c = Some [a, b])
       \<and> elements_shrink [a, b, c] a = Some []"
proof -
  have sh: "shrink arb = elements_shrink args"
    using assms(2) by (rule shrink_elements)
  define pre where "pre = takeWhile (\<lambda>y. y \<noteq> v) args"
  have p1: "v = JNaN \<or> v \<notin> set args \<or> hd args = v \<longrightarrow> shrink arb v = Some []"
    by (auto simp: sh elements_shrink_takeWhile)
  have p2: "v \<noteq> JNaN \<and> v \<in> set args \<and> hd args \<noteq> v \<longrightarrow>
            shrink arb v = Some (takeWhile (\<lambda>y. y \<noteq> v) args)
            \<and> (\<exists>rest. args = takeWhile (\<lambda>y. y \<noteq> v) args @ v # rest)
            \<and> v \<notin> set (takeWhile (\<lambda>y. y \<noteq> v) args)
            \<and> takeWhile (\<lambda>y. y \<noteq> v) args = take (nat (indexOf args v)) args
            \<and> 0 < indexOf args v"
  proof
    assume h: "v \<noteq> JNaN \<and> v \<in> set args \<and> hd args \<noteq> v"
    then have mem: "v \<in> set args" and nhd: "hd args \<noteq> v" and nn: "v \<noteq> JNaN" by simp_all
    have c1: "shrink arb v = Some pre"
      using h by (simp add: sh elements_shrink_takeWhile pre_def)
    have "args = pre @ dropWhile (\<lambda>y. y \<noteq> v) args"
      by (simp add: pre_def)
    moreover from mem have "dropWhile (\<lambda>y. y \<noteq> v) args \<noteq> []"
      by (simp add: dropWhile_eq_Nil_conv)
    then obtain z zs where d: "dropWhile (\<lambda>y. y \<noteq> v) args = z # zs"
      by (cases "dropWhile (\<lambda>y. y \<noteq> v) args") auto
    from hd_dropWhile [of "\<lambda>y. y \<noteq> v" args] d have "z = v"
      by simp
    ultimately have "args = pre @ v # zs"
      using d by simp
    then have c2: "\<exists>rest. args = pre @ v # rest" by (rule exI)
    have c3: "v \<notin> set pre"
      unfolding pre_def by (auto dest: set_takeWhileD)
    have c4: "pre = take (nat (indexOf args v)) args"
      using mem nn by (simp add: indexOf_takeWhile pre_def takeWhile_eq_take [symmetric])
    have "pre \<noteq> []"
      using mem nhd unfolding pre_def by (cases args) auto
    then have c5: "0 < indexOf args v"
      using mem nn by (simp add: indexOf_takeWhile pre_def)
    show "shrink arb v = Some (takeWhile (\<lambda>y. y \<noteq> v) args)
            \<and> (\<exists>rest. args = takeWhile (\<lambda>y. y \<noteq> v) args @ v # rest)
            \<and> v \<notin> set (takeWhile (\<lambda>y. y \<noteq> v) args)
            \<and> takeWhile (\<lambda>y. y \<noteq> v) args = take (nat (indexOf args v)) args
            \<and> 0 < indexOf args v"
      unfolding pre_def [symmetric] by (intro conjI c1 c2 c3 c4 c5)
  qed
  have p3: "indexOf args v
            = (if v \<noteq> JNaN \<and> v \<in> set args
               then int (length (takeWhile (\<lambda>y. y \<noteq> v) args)) else - 1)"
    by (rule indexOf_takeWhile)
  have p4: "c \<noteq> JNaN \<and> a \<noteq> c \<and> b \<noteq> c \<longrightarrow> elements_shrink [a, b, c] c = Some [a, b]"
    by (simp add: elements_shrink_takeWhile)
  have p5: "elements_shrink [a, b, c] a = Some []"
    by (simp add: elements_shrink_takeWhile)
  show ?thesis
    by (intro conjI p1 p2 p3 p4 p5)
qed

theorem elements_shrink_precedes_witness:
  "[JNumber 1, JNumber 2, JNumber 3] \<noteq> []
   \<and> elements [JNumber 1, JNumber 2, JNumber 3]
       = Inr (projr (elements [JNumber 1, JNumber 2, JNumber 3]))
   \<and> JNumber 3 \<noteq> JNaN \<and> JNumber 3 \<in> set [JNumber 1, JNumber 2, JNumber 3]
   \<and> hd [JNumber 1, JNumber 2, JNumber 3] \<noteq> JNumber 3
   \<and> shrink (projr (elements [JNumber 1, JNumber 2, JNumber 3])) (JNumber 3)
       = Some [JNumber 1, JNumber 2]
   \<and> hd [JNumber 1, JNumber 2, JNumber 3] = JNumber 1
   \<and> shrink (projr (elements [JNumber 1, JNumber 2, JNumber 3])) (JNumber 1) = Some []
   \<and> JNumber 4 \<notin> set [JNumber 1, JNumber 2, JNumber 3]
   \<and> shrink (projr (elements [JNumber 1, JNumber 2, JNumber 3])) (JNumber 4) = Some []
   \<and> shrink (projr (elements [JNumber 1, JNumber 2, JNumber 3])) JNaN = Some []"
proof -
  let ?args = "[JNumber 1, JNumber 2, JNumber 3]"
  have h1: "?args \<noteq> []" by simp
  have h2: "elements ?args = Inr (projr (elements ?args))"
    by (simp add: elements_def)
  have h3: "JNumber 3 \<noteq> JNaN" "JNumber 3 \<in> set ?args" "hd ?args \<noteq> JNumber 3"
    by simp_all
  have h4: "hd ?args = JNumber 1" by simp
  have h5: "JNumber 4 \<notin> set ?args" by simp
  note t3 = elements_shrink_precedes
    [OF h1 h2, where v = "JNumber 3" and a = JNull and b = JNull and c = JNull]
  note t1 = elements_shrink_precedes
    [OF h1 h2, where v = "JNumber 1" and a = JNull and b = JNull and c = JNull]
  note t4 = elements_shrink_precedes
    [OF h1 h2, where v = "JNumber 4" and a = JNull and b = JNull and c = JNull]
  note tn = elements_shrink_precedes
    [OF h1 h2, where v = JNaN and a = JNull and b = JNull and c = JNull]
  from t3 h3
  have "shrink (projr (elements ?args)) (JNumber 3)
          = Some (takeWhile (\<lambda>y. y \<noteq> JNumber 3) ?args)"
    by blast
  then have a: "shrink (projr (elements ?args)) (JNumber 3) = Some [JNumber 1, JNumber 2]"
    by simp
  from t1 h4 have b: "shrink (projr (elements ?args)) (JNumber 1) = Some []"
    by blast
  from t4 h5 have c: "shrink (projr (elements ?args)) (JNumber 4) = Some []"
    by blast
  from tn have d: "shrink (projr (elements ?args)) JNaN = Some []"
    by blast
  show ?thesis
    by (intro conjI h1 h2 h3 a h4 b h5 c d)
qed

subsection \<open>Dates\<close>

lemma js_trunc_of_int: "js_trunc (of_int t) = t"
  by (simp add: js_trunc_def)

lemma js_trunc_abs_le: "\<bar>of_int (js_trunc x) :: real\<bar> \<le> \<bar>x\<bar>"
proof (cases "0 \<le> x")
  case True
  then have "0 \<le> \<lfloor>x\<rfloor>" by simp
  then have "\<bar>of_int \<lfloor>x\<rfloor> :: real\<bar> = of_int \<lfloor>x\<rfloor>" by simp
  also have "\<dots> \<le> x" by (rule of_int_floor_le)
  finally show ?thesis using True by (simp add: js_trunc_def)
next
  case False
  then have neg: "x < 0" by simp
  then have "\<lceil>x\<rceil> \<le> 0" by (simp add: ceiling_le_iff)
  then have "\<bar>of_int \<lceil>x\<rceil> :: real\<bar> = - of_int \<lceil>x\<rceil>" by simp
  also have "\<dots> \<le> - x" using le_of_int_ceiling [of x] by simp
  finally show ?thesis using neg by (simp add: js_trunc_def)
qed

lemma new_Date_getTime_new_Date: "new_Date (getTime (new_Date v)) = new_Date v"
proof (cases v)
  case None
  then show ?thesis by (simp add: new_Date_def getTime_def)
next
  case (Some x)
  show ?thesis
  proof (cases "\<bar>x\<bar> > 8640000000000000")
    case True
    with Some show ?thesis by (simp add: new_Date_def getTime_def)
  next
    case False
    with js_trunc_abs_le [of x] have "\<not> \<bar>of_int (js_trunc x) :: real\<bar> > 8640000000000000"
      by linarith
    with False Some show ?thesis
      by (simp add: new_Date_def getTime_def js_trunc_of_int)
  qed
qed

lemma generator_datetime_two:
  "\<exists>v. generator (datetime [from, to]) r sz = new_Date v"
  by (auto simp: datetime_def Let_def gen_map_def split: option.split)

subsection \<open>C7: the round trip of the bounded datetime arbitrary\<close>

text \<open>
  Claim C7. For the bounded datetime arbitrary built from two endpoints, converting a
  generated date to its epoch-millisecond number with \<open>getTime\<close> and back with \<open>new Date\<close>
  gives the same date value, for every generated date (whatever the endpoints, the size
  and the random source are).
\<close>

theorem datetime_round_trip:
  "new_Date (getTime (generator (datetime [from, to]) r sz))
     = generator (datetime [from, to]) r sz"
proof -
  from generator_datetime_two obtain v
    where "generator (datetime [from, to]) r sz = new_Date v" by blast
  then show ?thesis
    by (simp only: new_Date_getTime_new_Date)
qed

text \<open>The bounded form on two valid endpoints, and one generated date.\<close>

lemma generator_datetime_valid:
  "generator (datetime [Date a, Date b]) r sz
     = new_Date (Some (generator (number [of_int a, of_int b]) r sz))"
  by (simp add: datetime_def Let_def gen_map_def getTime_def)

lemma datetime_bounded_example: "generator (datetime [Date 1000, Date 5000]) rng_hi 3 = Date 5000"
  by (simp add: generator_datetime_valid number_def generator_numeric_two generator_number_impl
      or_size_def numeric_to_def rng_hi_def new_Date_def js_trunc_def)

lemma generator_datetime_default:
  "generator (datetime []) r sz
     = new_Date (Some (random_number r (- real sz) (real sz) * 768000000 + datetimeConst))"
  by (simp add: datetime_def Let_def gen_map_def number_def numeric.simps
      generator_number_impl or_size_def)

subsection \<open>C8: the default datetime arbitrary\<close>

text \<open>
  Claim C8 as stated makes the date a function of the size hint alone,
  \<open>date = 1416499879495 + size * 768000000\<close>. The source multiplies the value drawn by the
  default number generator, not the size: at size 1 a random source that answers with the
  lower bound draws \<open>-1\<close> and gives the date \<open>1416499879495 - 768000000\<close>, which is neither
  the date of the formula nor the date obtained from a source that draws \<open>0\<close>.
\<close>

theorem datetime_default_counterexample:
  "rng_ok rng_lo \<and> rng_ok (rng_pick 0)
   \<and> generator (datetime []) rng_lo 1 = Date 1415731879495
   \<and> generator (datetime []) (rng_pick 0) 1 = Date 1416499879495
   \<and> new_Date (Some (datetimeConst + real 1 * 768000000)) = Date 1417267879495
   \<and> generator (datetime []) rng_lo 1 \<noteq> new_Date (Some (datetimeConst + real 1 * 768000000))
   \<and> generator (datetime []) rng_lo 1 \<noteq> generator (datetime []) (rng_pick 0) 1"
proof -
  have lo: "generator (datetime []) rng_lo 1 = Date 1415731879495"
    by (simp add: generator_datetime_default rng_lo_def datetimeConst_def new_Date_def
        js_trunc_def)
  have mid: "generator (datetime []) (rng_pick 0) 1 = Date 1416499879495"
    by (simp add: generator_datetime_default rng_pick_def datetimeConst_def new_Date_def
        js_trunc_def)
  have f: "new_Date (Some (datetimeConst + real 1 * 768000000)) = Date 1417267879495"
    by (simp add: datetimeConst_def new_Date_def js_trunc_def)
  from rng_ok_lo rng_ok_pick [of 0] lo mid f show ?thesis by simp
qed

text \<open>
  Claim C8, amended. The default datetime arbitrary derives its date by the affine formula
  \<open>date = new Date(1416499879495 + x * 768000000)\<close>, where \<open>x\<close> is the value that the
  default number generator draws at the size hint, a number of \<open>[-size, size]\<close>; the two
  constants are exactly these, and its shrinker is the no-op shrinker.
\<close>

theorem datetime_default:
  "generator (datetime []) r sz
     = new_Date (Some (datetimeConst + random_number r (- real sz) (real sz) * 768000000))
   \<and> datetimeConst = 1416499879495
   \<and> (rng_ok r \<longrightarrow> - real sz \<le> random_number r (- real sz) (real sz)
                    \<and> random_number r (- real sz) (real sz) \<le> real sz)
   \<and> random_number r (- real sz) (real sz) = generator (number []) r sz
   \<and> shrink (datetime []) d = Some []"
proof -
  have g: "generator (datetime []) r sz
     = new_Date (Some (datetimeConst + random_number r (- real sz) (real sz) * 768000000))"
    by (simp add: generator_datetime_default add.commute)
  have c: "datetimeConst = 1416499879495"
    by (rule datetimeConst_def)
  have b: "rng_ok r \<longrightarrow> - real sz \<le> random_number r (- real sz) (real sz)
                    \<and> random_number r (- real sz) (real sz) \<le> real sz"
  proof
    assume ok: "rng_ok r"
    have "- real sz \<le> real sz" by simp
    from rng_okD_number [OF ok this]
    show "- real sz \<le> random_number r (- real sz) (real sz)
                    \<and> random_number r (- real sz) (real sz) \<le> real sz" .
  qed
  have n: "random_number r (- real sz) (real sz) = generator (number []) r sz"
    by (simp add: number_def numeric.simps generator_number_impl or_size_def)
  have s: "shrink (datetime []) d = Some []"
    by (simp add: datetime_def Let_def shrink_noop_def)
  show ?thesis
    by (intro conjI g c b n s)
qed

theorem datetime_default_witness:
  "rng_ok rng_lo
   \<and> generator (datetime []) rng_lo 1 = Date 1415731879495
   \<and> - real 1 \<le> random_number rng_lo (- real 1) (real 1)
   \<and> random_number rng_lo (- real 1) (real 1) \<le> real 1
   \<and> shrink (datetime []) (Date 1415731879495) = Some []"
proof -
  note t = datetime_default [of rng_lo 1 "Date 1415731879495"]
  from t have g: "generator (datetime []) rng_lo 1
      = new_Date (Some (datetimeConst + random_number rng_lo (- real 1) (real 1) * 768000000))"
    by (rule conjunct1)
  have "new_Date (Some (datetimeConst + random_number rng_lo (- real 1) (real 1) * 768000000))
      = Date 1415731879495"
    by (simp add: rng_lo_def datetimeConst_def new_Date_def js_trunc_def)
  with g have a: "generator (datetime []) rng_lo 1 = Date 1415731879495"
    by (rule trans)
  from t rng_ok_lo
  have b: "- real 1 \<le> random_number rng_lo (- real 1) (real 1)
     \<and> random_number rng_lo (- real 1) (real 1) \<le> real 1"
    by blast
  from t have c: "shrink (datetime []) (Date 1415731879495) = Some []"
    by blast
  from rng_ok_lo a b c show ?thesis by blast
qed

end
